theory Spec2Isabelle
  imports Main
begin

section \<open>The circular buffer of leakguard/circularbuffer.hpp\<close>

text \<open>
  \<^verbatim>\<open>CircularBuffer<T, size, MutexImpl_t>\<close> keeps \<^verbatim>\<open>size + 1\<close> slots in
  \<^verbatim>\<open>std::array<T, size + 1> m_buffer\<close>, two cursors and an element count. The template
  parameter \<^verbatim>\<open>size\<close> is the first argument \<open>sz\<close> of every operation below; the
  source asserts \<^verbatim>\<open>size > 0\<close> statically.

  The three \<^verbatim>\<open>volatile std::size_t\<close> fields are natural numbers here. The only
  additions the source performs on them are \<^verbatim>\<open>m_writePtr + 1\<close>, \<^verbatim>\<open>m_readPtr + 1\<close>,
  \<^verbatim>\<open>m_readPtr + count\<close> and \<^verbatim>\<open>m_currentSize + pushed\<close>, all bounded by \<open>2 * sz\<close>
  on states whose cursors and count are at most \<open>sz\<close>, and an array of \<open>sz + 1\<close> elements
  exists, so none of them wraps around in \<^verbatim>\<open>size_t\<close>. The two subtractions
  (\<^verbatim>\<open>m_currentSize - 1\<close> after the emptiness test, \<^verbatim>\<open>m_currentSize - count\<close> after the
  clamp) never go below zero.

  The mutex (\<^verbatim>\<open>NopMutexImpl\<close> by default) guards the update of the count only; calls are
  modelled one after the other, where \<^verbatim>\<open>Lock\<close> and \<^verbatim>\<open>Unlock\<close> have no effect on the
  buffer.
\<close>

record 'a CircularBuffer =
  m_buffer :: "'a list"
  m_readPtr :: nat
  m_writePtr :: nat
  m_currentSize :: nat

text \<open>
  The default constructor: \<^verbatim>\<open>m_buffer {}\<close> value-initialises every slot (to \<open>dflt\<close>, the
  value-initialised \<^verbatim>\<open>T\<close>), the cursors and the count start at zero.
\<close>

definition CircularBuffer_new :: "nat \<Rightarrow> 'a \<Rightarrow> 'a CircularBuffer" where
  "CircularBuffer_new sz dflt =
     \<lparr>m_buffer = replicate (sz + 1) dflt, m_readPtr = 0, m_writePtr = 0, m_currentSize = 0\<rparr>"

subsection \<open>Iterators\<close>

text \<open>
  \<^verbatim>\<open>PushMany\<close> is a template over the iterator type \<^verbatim>\<open>It\<close>: it uses \<^verbatim>\<open>begin == end\<close>,
  \<^verbatim>\<open>*begin\<close> and \<^verbatim>\<open>++begin\<close> only. These three operations are the fields of
  \<open>InputIt\<close>.
\<close>

record ('it, 'a) InputIt =
  it_eq :: "'it \<Rightarrow> 'it \<Rightarrow> bool"
  it_deref :: "'it \<Rightarrow> 'a"
  it_incr :: "'it \<Rightarrow> 'it"

text \<open>
  A pointer \<^verbatim>\<open>const T*\<close> into an array holding \<open>xs\<close> is the offset from its first
  element. A range \<^verbatim>\<open>[p, p + n)\<close> over \<open>xs\<close> runs from offset \<open>0\<close> to \<open>length xs\<close>,
  and is only dereferenced below \<open>length xs\<close>.
\<close>

definition pointer_It :: "'a list \<Rightarrow> (nat, 'a) InputIt" where
  "pointer_It xs = \<lparr>it_eq = (\<lambda>p q. p = q), it_deref = (\<lambda>p. xs ! p), it_incr = (\<lambda>p. p + 1)\<rparr>"

text \<open>
  \<^verbatim>\<open>ConstIterator\<close> holds three pointers into \<^verbatim>\<open>m_buffer\<close> of the instance it was made
  from, here offsets from \<^verbatim>\<open>m_buffer.begin()\<close>: \<^verbatim>\<open>m_begin\<close> is offset \<open>0\<close> and
  \<^verbatim>\<open>m_end\<close> is offset \<open>sz + 1\<close>.
\<close>

record ConstIterator =
  m_current :: nat
  m_begin :: nat
  m_end :: nat

definition ConstIterator_new :: "nat \<Rightarrow> nat \<Rightarrow> ConstIterator" where
  "ConstIterator_new sz current = \<lparr>m_current = current, m_begin = 0, m_end = sz + 1\<rparr>"

definition ConstIterator_deref :: "'a CircularBuffer \<Rightarrow> ConstIterator \<Rightarrow> 'a" where
  "ConstIterator_deref instance it = m_buffer instance ! m_current it"

definition ConstIterator_incr :: "ConstIterator \<Rightarrow> ConstIterator" where
  "ConstIterator_incr it =
     (let it1 = it\<lparr>m_current := m_current it + 1\<rparr>
      in if m_current it1 \<ge> m_end it1 then it1\<lparr>m_current := m_begin it1\<rparr> else it1)"

definition ConstIterator_eq :: "ConstIterator \<Rightarrow> ConstIterator \<Rightarrow> bool" where
  "ConstIterator_eq a b = (m_current a = m_current b)"

definition ConstIterator_It :: "'a CircularBuffer \<Rightarrow> (ConstIterator, 'a) InputIt" where
  "ConstIterator_It instance =
     \<lparr>it_eq = ConstIterator_eq, it_deref = ConstIterator_deref instance,
      it_incr = ConstIterator_incr\<rparr>"

definition CircularBuffer_begin :: "nat \<Rightarrow> 'a CircularBuffer \<Rightarrow> ConstIterator" where
  "CircularBuffer_begin sz s = ConstIterator_new sz (m_readPtr s)"

definition CircularBuffer_end :: "nat \<Rightarrow> 'a CircularBuffer \<Rightarrow> ConstIterator" where
  "CircularBuffer_end sz s = ConstIterator_new sz (m_writePtr s)"

subsection \<open>Size getters\<close>

definition GetCapacity :: "nat \<Rightarrow> nat" where
  "GetCapacity sz = sz"

definition GetCapacityBytes :: "nat \<Rightarrow> nat \<Rightarrow> nat" where
  "GetCapacityBytes sz sizeof_T = sz * sizeof_T"

definition GetCurrentSize :: "'a CircularBuffer \<Rightarrow> nat" where
  "GetCurrentSize s = m_currentSize s"

definition IsEmpty :: "'a CircularBuffer \<Rightarrow> bool" where
  "IsEmpty s = (m_currentSize s = 0)"

subsection \<open>Operations\<close>

text \<open>
  The loop of \<^verbatim>\<open>PushMany\<close>, with its locals \<^verbatim>\<open>begin\<close> (here \<open>cur\<close>; \<^verbatim>\<open>end\<close> is \<open>fin\<close>),
  \<^verbatim>\<open>currentSize\<close> and \<^verbatim>\<open>pushed\<close>. It writes the slot at \<^verbatim>\<open>m_writePtr\<close>, advances the
  cursor and resets it to \<open>0\<close> once it is above \<open>sz\<close>. The local \<open>currentSize\<close> grows
  towards \<open>sz\<close> in every round, whatever the iterator does.
\<close>

function PushMany_loop ::
  "nat \<Rightarrow> ('it, 'a) InputIt \<Rightarrow> 'it \<Rightarrow> 'it \<Rightarrow> nat \<Rightarrow> nat \<Rightarrow> 'a CircularBuffer
     \<Rightarrow> nat \<times> 'a CircularBuffer" where
  "PushMany_loop sz It cur fin currentSize pushed s =
     (if \<not> it_eq It cur fin \<and> currentSize < sz then
        let s1 = s\<lparr>m_buffer := (m_buffer s)[m_writePtr s := it_deref It cur]\<rparr>;
            s2 = s1\<lparr>m_writePtr := m_writePtr s1 + 1\<rparr>;
            s3 = (if m_writePtr s2 > sz then s2\<lparr>m_writePtr := 0\<rparr> else s2)
        in PushMany_loop sz It (it_incr It cur) fin (currentSize + 1) (pushed + 1) s3
      else (pushed, s))"
  by pat_completeness auto
termination
  by (relation "measure (\<lambda>(sz, It, cur, fin, currentSize, pushed, s). sz - currentSize)") auto

declare PushMany_loop.simps [simp del]

definition PushMany ::
  "nat \<Rightarrow> ('it, 'a) InputIt \<Rightarrow> 'it \<Rightarrow> 'it \<Rightarrow> 'a CircularBuffer \<Rightarrow> nat \<times> 'a CircularBuffer" where
  "PushMany sz It cur fin s =
     (let (pushed, s') = PushMany_loop sz It cur fin (m_currentSize s) 0 s
      in if pushed > 0 then (pushed, s'\<lparr>m_currentSize := m_currentSize s' + pushed\<rparr>)
         else (pushed, s'))"

text \<open>\<^verbatim>\<open>PushMany\<close> on a pointer range holding the elements \<open>xs\<close>.\<close>

definition PushMany_range :: "nat \<Rightarrow> 'a list \<Rightarrow> 'a CircularBuffer \<Rightarrow> nat \<times> 'a CircularBuffer" where
  "PushMany_range sz xs s = PushMany sz (pointer_It xs) 0 (length xs) s"

text \<open>\<^verbatim>\<open>PushOne\<close>: the range \<^verbatim>\<open>[&value, &value + 1)\<close>.\<close>

definition PushOne :: "nat \<Rightarrow> 'a \<Rightarrow> 'a CircularBuffer \<Rightarrow> bool \<times> 'a CircularBuffer" where
  "PushOne sz v s = (let (pushed, s') = PushMany sz (pointer_It [v]) 0 (0 + 1) s in (pushed > 0, s'))"

definition Peek :: "'a CircularBuffer \<Rightarrow> 'a" where
  "Peek s = m_buffer s ! m_readPtr s"

definition Pop :: "nat \<Rightarrow> 'a CircularBuffer \<Rightarrow> bool \<times> 'a CircularBuffer" where
  "Pop sz s =
     (if IsEmpty s then (False, s)
      else
        let newReadPtr = m_readPtr s + 1;
            newReadPtr = (if newReadPtr > sz then 0 else newReadPtr);
            s1 = s\<lparr>m_readPtr := newReadPtr\<rparr>
        in (True, s1\<lparr>m_currentSize := m_currentSize s1 - 1\<rparr>))"

definition PopMany :: "nat \<Rightarrow> nat \<Rightarrow> 'a CircularBuffer \<Rightarrow> nat \<times> 'a CircularBuffer" where
  "PopMany sz cnt s =
     (let cnt = (if cnt > GetCurrentSize s then GetCurrentSize s else cnt);
          newReadPtr = m_readPtr s + cnt;
          newReadPtr = (if newReadPtr > sz then newReadPtr - sz else newReadPtr);
          s1 = s\<lparr>m_readPtr := newReadPtr\<rparr>
      in (cnt, s1\<lparr>m_currentSize := m_currentSize s1 - cnt\<rparr>))"

text \<open>
  \<^verbatim>\<open>PeekAndPop(T& out)\<close>: the caller's variable goes in as \<open>out\<close> and comes back as
  the second component.
\<close>

definition PeekAndPop :: "nat \<Rightarrow> 'a \<Rightarrow> 'a CircularBuffer \<Rightarrow> bool \<times> 'a \<times> 'a CircularBuffer" where
  "PeekAndPop sz out s =
     (if \<not> IsEmpty s then
        let out1 = m_buffer s ! m_readPtr s;
            (ok, s1) = Pop sz s
        in (ok, out1, s1)
      else (False, out, s))"

definition Clear :: "'a CircularBuffer \<Rightarrow> 'a CircularBuffer" where
  "Clear s = (let s1 = s\<lparr>m_currentSize := 0\<rparr> in s1\<lparr>m_readPtr := m_writePtr s1\<rparr>)"

text \<open>
  \<^verbatim>\<open>MoveTo\<close> from \<open>s\<close> (capacity \<open>sz\<close>) into another instance \<open>target\<close> (capacity
  \<open>sz2\<close>): the target reads \<open>s\<close> through the two iterators, then \<open>s\<close> pops what the
  target took. The result is the returned count, the source and the target.
\<close>

definition MoveTo ::
  "nat \<Rightarrow> nat \<Rightarrow> 'a CircularBuffer \<Rightarrow> 'a CircularBuffer
     \<Rightarrow> nat \<times> 'a CircularBuffer \<times> 'a CircularBuffer" where
  "MoveTo sz sz2 s target =
     (let beginIt = CircularBuffer_begin sz s;
          endIt = CircularBuffer_end sz s;
          (cnt, target1) = PushMany sz2 (ConstIterator_It s) beginIt endIt target;
          (moved, s1) = PopMany sz cnt s
      in (moved, s1, target1))"

text \<open>\<^verbatim>\<open>operator<<\<close> and \<^verbatim>\<open>operator>>\<close> drop the success flag.\<close>

definition shift_in :: "nat \<Rightarrow> 'a \<Rightarrow> 'a CircularBuffer \<Rightarrow> 'a CircularBuffer" where
  "shift_in sz v s = snd (PushOne sz v s)"

definition shift_out :: "nat \<Rightarrow> 'a \<Rightarrow> 'a CircularBuffer \<Rightarrow> 'a \<times> 'a CircularBuffer" where
  "shift_out sz out s = snd (PeekAndPop sz out s)"

subsection \<open>The state invariant and the queue a state stands for\<close>

text \<open>
  \<open>well_formed\<close>: the array has its \<open>sz + 1\<close> slots and both cursors index it.
  \<open>state_invariant\<close>: the count is at most \<open>sz\<close> and the write cursor is \<open>count\<close>
  slots after the read cursor, wrapping over the \<open>sz + 1\<close> slots.

  Every state reached from the constructor by calls of the public interface is
  \<open>well_formed\<close> with a count of at most \<open>sz\<close> (lemmas \<open>run_well_formed\<close> and
  \<open>run_count_bound\<close> below), so no call indexes \<^verbatim>\<open>m_buffer\<close> outside its \<open>sz + 1\<close>
  slots there. On other states \<^verbatim>\<open>m_buffer[i]\<close> is undefined in C++, and the list
  operations of the model stand for nothing.
\<close>

definition well_formed :: "nat \<Rightarrow> 'a CircularBuffer \<Rightarrow> bool" where
  "well_formed sz s =
     (length (m_buffer s) = sz + 1 \<and> m_readPtr s \<le> sz \<and> m_writePtr s \<le> sz)"

definition state_invariant :: "nat \<Rightarrow> 'a CircularBuffer \<Rightarrow> bool" where
  "state_invariant sz s =
     (m_currentSize s \<le> sz \<and> m_writePtr s = (m_readPtr s + m_currentSize s) mod (sz + 1))"

text \<open>
  \<open>window sz buf r n\<close>: the \<open>n\<close> slots from \<open>r\<close> on, wrapping. \<open>contents\<close>: the
  slots from the read cursor (inclusive) to the write cursor (exclusive), oldest first.
\<close>

definition window :: "nat \<Rightarrow> 'a list \<Rightarrow> nat \<Rightarrow> nat \<Rightarrow> 'a list" where
  "window sz buf r n = map (\<lambda>i. buf ! ((r + i) mod (sz + 1))) [0..<n]"

definition contents :: "nat \<Rightarrow> 'a CircularBuffer \<Rightarrow> 'a list" where
  "contents sz s = window sz (m_buffer s) (m_readPtr s) (m_currentSize s)"

text \<open>
  \<open>it_range It cur fin xs\<close>: stepping from \<open>cur\<close> reaches \<open>fin\<close> after exactly
  \<open>length xs\<close> increments and dereferences to \<open>xs\<close> on the way.
\<close>

primrec it_range :: "('it, 'a) InputIt \<Rightarrow> 'it \<Rightarrow> 'it \<Rightarrow> 'a list \<Rightarrow> bool" where
  "it_range It cur fin [] = it_eq It cur fin"
| "it_range It cur fin (x # xs) =
     (\<not> it_eq It cur fin \<and> it_deref It cur = x \<and> it_range It (it_incr It cur) fin xs)"

subsection \<open>Calls of the public interface\<close>

text \<open>
  A call of a public member function on one instance, with its arguments. An argument
  passed as \<^verbatim>\<open>T&\<close> carries the content of the caller's variable. \<open>OpMoveTo sz2 target\<close>
  is \<^verbatim>\<open>this->MoveTo(target)\<close> for another instance \<open>target\<close> of capacity \<open>sz2\<close>;
  \<open>OpMoveFrom sz1 source\<close> is \<^verbatim>\<open>source.MoveTo(*this)\<close> for another instance \<open>source\<close>
  of capacity \<open>sz1\<close>. \<open>OpGetCapacityBytes\<close> carries \<^verbatim>\<open>sizeof(T)\<close>.
\<close>

datatype 'a call =
    OpPushMany "'a list"
  | OpPushOne 'a
  | OpShiftIn 'a
  | OpShiftOut 'a
  | OpPeek
  | OpPop
  | OpPopMany nat
  | OpPeekAndPop 'a
  | OpClear
  | OpMoveTo nat "'a CircularBuffer"
  | OpMoveFrom nat "'a CircularBuffer"
  | OpGetCapacity
  | OpGetCapacityBytes nat
  | OpGetCurrentSize
  | OpIsEmpty
  | OpBegin
  | OpEnd

text \<open>
  What the caller gets back: the return value, the variable behind a \<^verbatim>\<open>T&\<close> argument, the
  other instance after a move.
\<close>

datatype 'a ret =
    RetUnit
  | RetNat nat
  | RetBool bool
  | RetElem 'a
  | RetIt ConstIterator
  | RetOut bool 'a
  | RetVar 'a
  | RetMove nat "'a CircularBuffer"

fun step :: "nat \<Rightarrow> 'a call \<Rightarrow> 'a CircularBuffer \<Rightarrow> 'a ret \<times> 'a CircularBuffer" where
  "step sz (OpPushMany xs) s = (let (n, s1) = PushMany_range sz xs s in (RetNat n, s1))"
| "step sz (OpPushOne v) s = (let (ok, s1) = PushOne sz v s in (RetBool ok, s1))"
| "step sz (OpShiftIn v) s = (RetUnit, shift_in sz v s)"
| "step sz (OpShiftOut out) s = (let (out1, s1) = shift_out sz out s in (RetVar out1, s1))"
| "step sz OpPeek s = (RetElem (Peek s), s)"
| "step sz OpPop s = (let (ok, s1) = Pop sz s in (RetBool ok, s1))"
| "step sz (OpPopMany n) s = (let (k, s1) = PopMany sz n s in (RetNat k, s1))"
| "step sz (OpPeekAndPop out) s = (let (ok, out1, s1) = PeekAndPop sz out s in (RetOut ok out1, s1))"
| "step sz OpClear s = (RetUnit, Clear s)"
| "step sz (OpMoveTo sz2 target) s =
     (let (k, s1, target1) = MoveTo sz sz2 s target in (RetMove k target1, s1))"
| "step sz (OpMoveFrom sz1 source) s =
     (let (k, source1, s1) = MoveTo sz1 sz source s in (RetMove k source1, s1))"
| "step sz OpGetCapacity s = (RetNat (GetCapacity sz), s)"
| "step sz (OpGetCapacityBytes sizeof_T) s = (RetNat (GetCapacityBytes sz sizeof_T), s)"
| "step sz OpGetCurrentSize s = (RetNat (GetCurrentSize s), s)"
| "step sz OpIsEmpty s = (RetBool (IsEmpty s), s)"
| "step sz OpBegin s = (RetIt (CircularBuffer_begin sz s), s)"
| "step sz OpEnd s = (RetIt (CircularBuffer_end sz s), s)"

text \<open>A sequence of calls on one instance: what each call gave back, and the final state.\<close>

fun run :: "nat \<Rightarrow> 'a call list \<Rightarrow> 'a CircularBuffer \<Rightarrow> 'a ret list \<times> 'a CircularBuffer" where
  "run sz [] s = ([], s)"
| "run sz (c # cs) s =
     (let (r, s1) = step sz c s; (rs, s2) = run sz cs s1 in (r # rs, s2))"

text \<open>
  Popping in full: \<^verbatim>\<open>while (buffer.PeekAndPop(out)) { ... }\<close>, collecting the values
  handed out. Every successful \<^verbatim>\<open>PeekAndPop\<close> lowers the count, so the loop ends.
\<close>

function drain :: "nat \<Rightarrow> 'a \<Rightarrow> 'a CircularBuffer \<Rightarrow> 'a list" where
  "drain sz out s =
     (case PeekAndPop sz out s of
        (ok, out1, s1) \<Rightarrow> if ok then out1 # drain sz out1 s1 else [])"
  by pat_completeness auto
termination
proof (relation "measure (\<lambda>(sz, out, s). m_currentSize s)")
  show "wf (measure (\<lambda>(sz, out, s). m_currentSize s))" by simp
next
  fix sz :: nat and out :: 'a and s :: "'a CircularBuffer" and x xa y ya
  assume "(x, y) = PeekAndPop sz out s" "(xa, ya) = y" "x"
  then show "((sz, xa, ya), (sz, out, s)) \<in> measure (\<lambda>(sz, out, s). m_currentSize s)"
    by (auto simp: PeekAndPop_def Pop_def IsEmpty_def Let_def split: if_splits)
qed

declare drain.simps [simp del]

text \<open>
  The values a call offers to the buffer, the values it puts in according to what it
  returns, and the values it takes out: \<^verbatim>\<open>PeekAndPop\<close> hands the value out, \<^verbatim>\<open>Pop\<close>
  removes the element \<^verbatim>\<open>Peek\<close> shows right before the call.
\<close>

fun is_push :: "'a call \<Rightarrow> bool" where
  "is_push (OpPushMany xs) = True"
| "is_push (OpPushOne v) = True"
| "is_push c = False"

fun is_push_or_pop :: "'a call \<Rightarrow> bool" where
  "is_push_or_pop (OpPushMany xs) = True"
| "is_push_or_pop (OpPushOne v) = True"
| "is_push_or_pop OpPop = True"
| "is_push_or_pop (OpPeekAndPop out) = True"
| "is_push_or_pop c = False"

fun offered :: "'a call \<Rightarrow> 'a list" where
  "offered (OpPushMany xs) = xs"
| "offered (OpPushOne v) = [v]"
| "offered c = []"

fun accepted :: "'a call \<Rightarrow> 'a ret \<Rightarrow> 'a list" where
  "accepted (OpPushMany xs) (RetNat n) = take n xs"
| "accepted (OpPushOne v) (RetBool ok) = (if ok then [v] else [])"
| "accepted c r = []"

fun removed :: "'a CircularBuffer \<Rightarrow> 'a call \<Rightarrow> 'a ret \<Rightarrow> 'a list" where
  "removed s (OpPeekAndPop out) (RetOut ok out1) = (if ok then [out1] else [])"
| "removed s OpPop (RetBool ok) = (if ok then [Peek s] else [])"
| "removed s c r = []"

text \<open>
  \<open>trace\<close> runs the calls and collects, in order, the values accepted and the values
  removed.
\<close>

fun trace ::
  "nat \<Rightarrow> 'a call list \<Rightarrow> 'a CircularBuffer \<Rightarrow> ('a list \<times> 'a list) \<times> 'a CircularBuffer" where
  "trace sz [] s = (([], []), s)"
| "trace sz (c # cs) s =
     (let (r, s1) = step sz c s; ((acc, rem), s2) = trace sz cs s1
      in ((accepted c r @ acc, removed s c r @ rem), s2))"

text \<open>
  The calls that go through \<^verbatim>\<open>PopMany\<close>: \<^verbatim>\<open>PopMany\<close> itself and \<^verbatim>\<open>MoveTo\<close> on its
  source.
\<close>

fun uses_PopMany :: "'a call \<Rightarrow> bool" where
  "uses_PopMany (OpPopMany n) = True"
| "uses_PopMany (OpMoveTo sz2 target) = True"
| "uses_PopMany c = False"

section \<open>Facts about the model\<close>

subsection \<open>Wrapping cursors and windows of the array\<close>

lemma mod_distinct:
  fixes r i c sz :: nat
  assumes "i < c" "c \<le> sz"
  shows "(r + i) mod (sz + 1) \<noteq> (r + c) mod (sz + 1)"
proof
  assume "(r + i) mod (sz + 1) = (r + c) mod (sz + 1)"
  then have "(sz + 1) dvd (r + c) - (r + i)"
    using assms mod_eq_dvd_iff_nat[of "r + i" "r + c" "sz + 1"] by simp
  then have "(sz + 1) dvd (c - i)" by simp
  then have "sz + 1 \<le> c - i" using assms by (intro dvd_imp_le) auto
  then show False using assms by simp
qed

lemma window_Suc:
  "window sz buf r (Suc n) = window sz buf r n @ [buf ! ((r + n) mod (sz + 1))]"
  by (simp add: window_def)

lemma window_update:
  assumes "c \<le> sz"
  shows "window sz (buf[(r + c) mod (sz + 1) := x]) r c = window sz buf r c"
proof -
  have "buf[(r + c) mod (sz + 1) := x] ! ((r + i) mod (sz + 1)) = buf ! ((r + i) mod (sz + 1))"
    if "i < c" for i
    using mod_distinct[OF that assms, of r] by (simp only: nth_list_update_neq not_sym)
  then show ?thesis unfolding window_def by (intro map_cong) auto
qed

lemma window_push:
  assumes "c \<le> sz" "length buf = sz + 1"
  shows "window sz (buf[(r + c) mod (sz + 1) := x]) r (Suc c) = window sz buf r c @ [x]"
proof -
  have "(r + c) mod (sz + 1) < length buf" using assms by simp
  then show ?thesis
    unfolding window_Suc window_update[OF assms(1)] by (simp only: nth_list_update_eq)
qed

lemma wrap_succ:
  fixes w sz :: nat
  assumes "w \<le> sz"
  shows "(if w + 1 > sz then 0 else w + 1) = (w + 1) mod (sz + 1)"
  using assms by (auto simp: le_less)


subsection \<open>The loop of PushMany\<close>

lemma PushMany_loop_stop:
  "it_eq It cur fin \<or> \<not> c < sz \<Longrightarrow> PushMany_loop sz It cur fin c p s = (p, s)"
  by (subst PushMany_loop.simps) auto

lemma PushMany_loop_step:
  "\<not> it_eq It cur fin \<Longrightarrow> c < sz \<Longrightarrow>
   PushMany_loop sz It cur fin c p s =
   PushMany_loop sz It (it_incr It cur) fin (c + 1) (p + 1)
     (s\<lparr>m_buffer := (m_buffer s)[m_writePtr s := it_deref It cur],
        m_writePtr := (if m_writePtr s + 1 > sz then 0 else m_writePtr s + 1)\<rparr>)"
  by (subst PushMany_loop.simps) (simp add: Let_def)

lemma PushMany_loop_frame:
  "m_readPtr (snd (PushMany_loop sz It cur fin c p s)) = m_readPtr s \<and>
   m_currentSize (snd (PushMany_loop sz It cur fin c p s)) = m_currentSize s \<and>
   length (m_buffer (snd (PushMany_loop sz It cur fin c p s))) = length (m_buffer s)"
proof (induction sz It cur fin c p s rule: PushMany_loop.induct)
  case (1 sz It cur fin c p s)
  show ?case
  proof (cases "\<not> it_eq It cur fin \<and> c < sz")
    case True
    then show ?thesis
      using "1.IH"[OF True refl refl refl]
      by (simp add: PushMany_loop_step split: if_splits)
  next
    case False
    then show ?thesis by (simp add: PushMany_loop_stop)
  qed
qed

lemma PushMany_loop_bound:
  "c \<le> sz \<Longrightarrow> p \<le> fst (PushMany_loop sz It cur fin c p s) \<and>
     fst (PushMany_loop sz It cur fin c p s) - p \<le> sz - c"
proof (induction sz It cur fin c p s rule: PushMany_loop.induct)
  case (1 sz It cur fin c p s)
  show ?case
  proof (cases "\<not> it_eq It cur fin \<and> c < sz")
    case True
    then show ?thesis
      using "1.IH"[OF True refl refl refl] "1.prems"
      by (auto simp add: PushMany_loop_step split: if_splits)
  next
    case False
    then show ?thesis by (simp add: PushMany_loop_stop)
  qed
qed

lemma PushMany_loop_range:
  assumes "it_range It cur fin xs" "length (m_buffer s) = sz + 1" "c \<le> sz"
    "m_writePtr s = (r + c) mod (sz + 1)"
  shows "fst (PushMany_loop sz It cur fin c p s) = p + min (length xs) (sz - c) \<and>
     m_writePtr (snd (PushMany_loop sz It cur fin c p s))
       = (r + c + min (length xs) (sz - c)) mod (sz + 1) \<and>
     window sz (m_buffer (snd (PushMany_loop sz It cur fin c p s))) r (c + min (length xs) (sz - c))
       = window sz (m_buffer s) r c @ take (sz - c) xs"
  using assms
proof (induction xs arbitrary: cur c p s)
  case Nil
  then show ?case by (simp add: PushMany_loop_stop)
next
  case (Cons x xs)
  show ?case
  proof (cases "c < sz")
    case False
    then show ?thesis using Cons.prems by (simp add: PushMany_loop_stop)
  next
    case True
    let ?s = "s\<lparr>m_buffer := (m_buffer s)[m_writePtr s := it_deref It cur],
        m_writePtr := (if m_writePtr s + 1 > sz then 0 else m_writePtr s + 1)\<rparr>"
    from Cons.prems have ne: "\<not> it_eq It cur fin" and dx: "it_deref It cur = x"
      and rest: "it_range It (it_incr It cur) fin xs" by simp_all
    have w: "m_writePtr s \<le> sz" using Cons.prems(4) by simp
    have w': "m_writePtr ?s = (r + (c + 1)) mod (sz + 1)"
      using wrap_succ[OF w] Cons.prems(4) by (simp add: mod_Suc)
    have len: "length (m_buffer ?s) = sz + 1" using Cons.prems(2) by simp
    have win: "window sz (m_buffer ?s) r (c + 1) = window sz (m_buffer s) r c @ [x]"
      using window_push[of c sz "m_buffer s" r x] Cons.prems True dx by simp
    have c1: "c + 1 \<le> sz" using True by simp
    note IH = Cons.IH[OF rest len c1 w', of "p + 1"]
    have m: "min (length (x # xs)) (sz - c) = 1 + min (length xs) (sz - (c + 1))"
      using True by simp
    have tk: "take (sz - c) (x # xs) = x # take (sz - (c + 1)) xs"
    proof -
      have "sz - c = Suc (sz - (c + 1))" using True by simp
      then show ?thesis by simp
    qed
    show ?thesis
      unfolding PushMany_loop_step[OF ne True] m tk
      using IH win by (simp add: add.assoc)
  qed
qed


subsection \<open>What the two iterator types range over\<close>

lemma it_range_pointer_app:
  "it_range (pointer_It (pre @ xs)) (length pre) (length pre + length xs) xs"
proof (induction xs arbitrary: pre)
  case Nil
  show ?case by (simp add: pointer_It_def)
next
  case (Cons x xs)
  from Cons[of "pre @ [x]"] show ?case by (simp add: pointer_It_def)
qed

lemma it_range_pointer: "it_range (pointer_It xs) 0 (length xs) xs"
  using it_range_pointer_app[of "[]" xs] by simp

lemma ConstIterator_incr_new:
  "c \<le> sz \<Longrightarrow> ConstIterator_incr (ConstIterator_new sz c) = ConstIterator_new sz ((c + 1) mod (sz + 1))"
  by (auto simp: ConstIterator_incr_def ConstIterator_new_def Let_def le_less)

lemma it_range_ConstIterator_gen:
  assumes "n \<le> sz"
  shows "j \<le> n \<Longrightarrow>
     it_range (ConstIterator_It s) (ConstIterator_new sz ((r + j) mod (sz + 1)))
       (ConstIterator_new sz ((r + n) mod (sz + 1)))
       (map (\<lambda>i. m_buffer s ! ((r + i) mod (sz + 1))) [j..<n])"
proof (induction "n - j" arbitrary: j)
  case 0
  then show ?case
    by (simp add: ConstIterator_It_def ConstIterator_eq_def ConstIterator_new_def)
next
  case (Suc d)
  then have lt: "j < n" and d: "d = n - Suc j" and le: "Suc j \<le> n" by simp_all
  have ne: "(r + j) mod (sz + 1) \<noteq> (r + n) mod (sz + 1)"
    using mod_distinct[OF lt assms] .
  have up: "[j..<n] = j # [Suc j..<n]" using lt by (simp add: upt_conv_Cons)
  have inc: "ConstIterator_incr (ConstIterator_new sz ((r + j) mod (sz + 1)))
      = ConstIterator_new sz ((r + Suc j) mod (sz + 1))"
    by (subst ConstIterator_incr_new) (simp_all add: mod_Suc_eq)
  from Suc.hyps(1)[OF d le] ne inc show ?case
    unfolding up
    by (simp add: ConstIterator_It_def ConstIterator_eq_def ConstIterator_new_def
        ConstIterator_deref_def)
qed

lemma it_range_ConstIterator:
  assumes "well_formed sz s" "state_invariant sz s"
  shows "it_range (ConstIterator_It s) (CircularBuffer_begin sz s) (CircularBuffer_end sz s)
     (contents sz s)"
proof -
  have r: "m_readPtr s mod (sz + 1) = m_readPtr s"
    using assms(1) by (simp add: well_formed_def)
  show ?thesis
    using it_range_ConstIterator_gen[of "m_currentSize s" sz 0 s "m_readPtr s"] assms r
    by (simp add: CircularBuffer_begin_def CircularBuffer_end_def contents_def window_def
        state_invariant_def)
qed


subsection \<open>The operations on states that satisfy the invariant\<close>

lemma PushMany_spec:
  assumes rng: "it_range It cur fin xs" and wf: "well_formed sz s" and inv: "state_invariant sz s"
  shows "fst (PushMany sz It cur fin s) = min (length xs) (sz - m_currentSize s)"
    and "well_formed sz (snd (PushMany sz It cur fin s))"
    and "state_invariant sz (snd (PushMany sz It cur fin s))"
    and "contents sz (snd (PushMany sz It cur fin s))
          = contents sz s @ take (sz - m_currentSize s) xs"
    and "m_currentSize (snd (PushMany sz It cur fin s))
          = m_currentSize s + min (length xs) (sz - m_currentSize s)"
proof -
  let ?c = "m_currentSize s"
  let ?k = "min (length xs) (sz - ?c)"
  let ?L = "PushMany_loop sz It cur fin ?c 0 s"
  have len: "length (m_buffer s) = sz + 1" and r: "m_readPtr s \<le> sz"
    using wf by (simp_all add: well_formed_def)
  have c: "?c \<le> sz" and w: "m_writePtr s = (m_readPtr s + ?c) mod (sz + 1)"
    using inv by (simp_all add: state_invariant_def)
  note R = PushMany_loop_range[OF rng len c w, of 0]
  note F = PushMany_loop_frame[of sz It cur fin ?c 0 s]
  have res: "PushMany sz It cur fin s
      = (?k, if ?k > 0 then (snd ?L)\<lparr>m_currentSize := ?c + ?k\<rparr> else snd ?L)"
    using R F by (simp add: PushMany_def split_beta Let_def)
  show "fst (PushMany sz It cur fin s) = ?k" by (simp add: res)
  have cs: "m_currentSize (snd (PushMany sz It cur fin s)) = ?c + ?k"
    using F by (simp add: res)
  then show "m_currentSize (snd (PushMany sz It cur fin s)) = ?c + ?k" .
  have rp: "m_readPtr (snd (PushMany sz It cur fin s)) = m_readPtr s"
    using F by (simp add: res)
  have wp: "m_writePtr (snd (PushMany sz It cur fin s)) = (m_readPtr s + ?c + ?k) mod (sz + 1)"
    using R by (simp add: res)
  have bf: "m_buffer (snd (PushMany sz It cur fin s)) = m_buffer (snd ?L)"
    by (simp add: res)
  show "well_formed sz (snd (PushMany sz It cur fin s))"
    using F len r by (simp add: well_formed_def rp wp bf)
  show "state_invariant sz (snd (PushMany sz It cur fin s))"
    using c by (simp add: state_invariant_def rp wp cs add.assoc)
  show "contents sz (snd (PushMany sz It cur fin s)) = contents sz s @ take (sz - ?c) xs"
    using R by (simp add: contents_def rp cs bf)
qed

lemma window_Cons:
  "window sz buf r (Suc n) = buf ! (r mod (sz + 1)) # window sz buf ((r + 1) mod (sz + 1)) n"
proof -
  have "[0..<Suc n] = 0 # map Suc [0..<n]"
    by (simp add: upt_conv_Cons map_Suc_upt del: upt_Suc)
  then show ?thesis
    unfolding window_def by (simp add: mod_Suc_eq mod_add_left_eq del: upt_Suc)
qed

lemma Peek_spec:
  assumes "well_formed sz s" "0 < m_currentSize s"
  shows "Peek s = hd (contents sz s)"
proof -
  obtain n where n: "m_currentSize s = Suc n" using assms(2) by (cases "m_currentSize s") auto
  have "m_readPtr s mod (sz + 1) = m_readPtr s" using assms(1) by (simp add: well_formed_def)
  then show ?thesis by (simp add: Peek_def contents_def n window_Cons)
qed

lemma Pop_spec:
  assumes wf: "well_formed sz s" and inv: "state_invariant sz s" and ne: "0 < m_currentSize s"
  shows "fst (Pop sz s)"
    and "well_formed sz (snd (Pop sz s))"
    and "state_invariant sz (snd (Pop sz s))"
    and "contents sz (snd (Pop sz s)) = tl (contents sz s)"
proof -
  obtain n where n: "m_currentSize s = Suc n" using ne by (cases "m_currentSize s") auto
  have r: "m_readPtr s \<le> sz" using wf by (simp add: well_formed_def)
  have res: "Pop sz s = (True, s\<lparr>m_readPtr := (m_readPtr s + 1) mod (sz + 1), m_currentSize := n\<rparr>)"
    using wrap_succ[OF r] n by (auto simp add: Pop_def IsEmpty_def Let_def split: if_splits)
  show "fst (Pop sz s)" by (simp add: res)
  show "well_formed sz (snd (Pop sz s))" using wf by (simp add: res well_formed_def)
  show "state_invariant sz (snd (Pop sz s))"
  proof -
    have "((m_readPtr s + 1) mod (sz + 1) + n) mod (sz + 1) = (m_readPtr s + Suc n) mod (sz + 1)"
      by (simp add: mod_add_left_eq)
    then show ?thesis using inv n by (simp add: res state_invariant_def)
  qed
  show "contents sz (snd (Pop sz s)) = tl (contents sz s)"
    by (simp add: res contents_def n window_Cons)
qed

lemma Pop_empty: "m_currentSize s = 0 \<Longrightarrow> Pop sz s = (False, s)"
  by (simp add: Pop_def IsEmpty_def)

lemma contents_empty: "m_currentSize s = 0 \<Longrightarrow> contents sz s = []"
  by (simp add: contents_def window_def)

lemma length_contents: "length (contents sz s) = m_currentSize s"
  by (simp add: contents_def window_def)

lemma PeekAndPop_spec:
  assumes wf: "well_formed sz s" and inv: "state_invariant sz s" and ne: "0 < m_currentSize s"
  shows "PeekAndPop sz out s = (True, hd (contents sz s), snd (Pop sz s))"
  using Pop_spec(1)[OF assms] Peek_spec[OF wf ne] ne
  by (simp add: PeekAndPop_def IsEmpty_def split_beta Peek_def)

lemma PeekAndPop_empty: "m_currentSize s = 0 \<Longrightarrow> PeekAndPop sz out s = (False, out, s)"
  by (simp add: PeekAndPop_def IsEmpty_def)

lemma Clear_spec:
  assumes "m_writePtr s \<le> sz" "length (m_buffer s) = sz + 1"
  shows "well_formed sz (Clear s)" "state_invariant sz (Clear s)" "contents sz (Clear s) = []"
    "m_currentSize (Clear s) = 0" "m_readPtr (Clear s) = m_writePtr s"
  using assms by (simp_all add: Clear_def well_formed_def state_invariant_def contents_def window_def)

lemma new_spec:
  "well_formed sz (CircularBuffer_new sz d)" "state_invariant sz (CircularBuffer_new sz d)"
  "contents sz (CircularBuffer_new sz d) = []" "m_currentSize (CircularBuffer_new sz d) = 0"
  by (simp_all add: CircularBuffer_new_def well_formed_def state_invariant_def contents_def window_def)


lemma drain_spec:
  "well_formed sz s \<Longrightarrow> state_invariant sz s \<Longrightarrow> drain sz out s = contents sz s"
proof (induction "m_currentSize s" arbitrary: s out)
  case 0
  then show ?case
    by (subst drain.simps) (simp add: PeekAndPop_empty contents_empty)
next
  case (Suc n)
  then have ne: "0 < m_currentSize s" by simp
  note P = Pop_spec[OF Suc.prems ne]
  have n: "n = m_currentSize (snd (Pop sz s))"
    using length_contents[of sz "snd (Pop sz s)"] length_contents[of sz s] Suc.hyps(2) P(4)
    by simp
  have c: "contents sz s \<noteq> []" using length_contents[of sz s] ne by auto
  show ?case
    by (subst drain.simps)
       (simp add: PeekAndPop_spec[OF Suc.prems ne] Suc.hyps(1)[OF n P(2) P(3)] P(4) c)
qed

lemma PopMany_result:
  "fst (PopMany sz n s) = min n (m_currentSize s)"
  "m_currentSize (snd (PopMany sz n s)) = m_currentSize s - min n (m_currentSize s)"
  "m_writePtr (snd (PopMany sz n s)) = m_writePtr s"
  "m_buffer (snd (PopMany sz n s)) = m_buffer s"
  by (simp_all add: PopMany_def GetCurrentSize_def Let_def min_def)

lemma MoveTo_spec:
  assumes "well_formed sza A" "state_invariant sza A" "well_formed szb B" "state_invariant szb B"
  shows "fst (MoveTo sza szb A B) = min (m_currentSize A) (szb - m_currentSize B)"
    and "m_currentSize (fst (snd (MoveTo sza szb A B)))
           = m_currentSize A - min (m_currentSize A) (szb - m_currentSize B)"
    and "m_currentSize (snd (snd (MoveTo sza szb A B)))
           = m_currentSize B + min (m_currentSize A) (szb - m_currentSize B)"
    and "well_formed szb (snd (snd (MoveTo sza szb A B)))"
    and "state_invariant szb (snd (snd (MoveTo sza szb A B)))"
    and "contents szb (snd (snd (MoveTo sza szb A B)))
           = contents szb B @ take (szb - m_currentSize B) (contents sza A)"
proof -
  note rng = it_range_ConstIterator[OF assms(1,2)]
  note P = PushMany_spec[OF rng assms(3,4)]
  let ?P = "PushMany szb (ConstIterator_It A) (CircularBuffer_begin sza A) (CircularBuffer_end sza A) B"
  have res: "MoveTo sza szb A B = (fst (PopMany sza (fst ?P) A), snd (PopMany sza (fst ?P) A), snd ?P)"
    by (simp add: MoveTo_def Let_def split_beta)
  have k: "fst ?P = min (m_currentSize A) (szb - m_currentSize B)"
    using P(1) by (simp add: length_contents)
  show "fst (MoveTo sza szb A B) = min (m_currentSize A) (szb - m_currentSize B)"
    unfolding res by (simp add: PopMany_result k)
  show "m_currentSize (fst (snd (MoveTo sza szb A B)))
           = m_currentSize A - min (m_currentSize A) (szb - m_currentSize B)"
    unfolding res by (simp add: PopMany_result k)
  show "m_currentSize (snd (snd (MoveTo sza szb A B)))
           = m_currentSize B + min (m_currentSize A) (szb - m_currentSize B)"
    unfolding res using P(5) by (simp add: length_contents)
  show "well_formed szb (snd (snd (MoveTo sza szb A B)))" unfolding res using P(2) by simp
  show "state_invariant szb (snd (snd (MoveTo sza szb A B)))" unfolding res using P(3) by simp
  show "contents szb (snd (snd (MoveTo sza szb A B)))
           = contents szb B @ take (szb - m_currentSize B) (contents sza A)"
    unfolding res using P(4) by simp
qed


subsection \<open>Sequences of calls\<close>

lemma PushMany_count_bound:
  assumes "m_currentSize s \<le> sz"
  shows "m_currentSize (snd (PushMany sz It cur fin s)) \<le> sz"
  using PushMany_loop_bound[OF assms, of 0 It cur fin s]
    PushMany_loop_frame[of sz It cur fin "m_currentSize s" 0 s] assms
  by (auto simp: PushMany_def split_beta Let_def)

lemma PushMany_readPtr:
  "m_readPtr (snd (PushMany sz It cur fin s)) = m_readPtr s"
  using PushMany_loop_frame[of sz It cur fin "m_currentSize s" 0 s]
  by (simp add: PushMany_def split_beta Let_def)

lemma step_count_bound:
  assumes "m_currentSize s \<le> sz"
  shows "m_currentSize (snd (step sz c s)) \<le> sz"
proof (cases c)
  case (OpMoveTo sz2 target)
  then show ?thesis using assms
    by (simp add: split_beta MoveTo_def Let_def PopMany_result)
next
  case (OpMoveFrom sz1 source)
  then show ?thesis using PushMany_count_bound[OF assms]
    by (simp add: split_beta MoveTo_def Let_def)
qed (use assms PushMany_count_bound[OF assms] in
     \<open>auto simp: split_beta PushMany_range_def PushOne_def shift_in_def shift_out_def
        PeekAndPop_def Pop_def PopMany_result Clear_def Let_def\<close>)

lemma run_count_bound:
  "m_currentSize s \<le> sz \<Longrightarrow> m_currentSize (snd (run sz cs s)) \<le> sz"
proof (induction cs arbitrary: s)
  case Nil
  then show ?case by simp
next
  case (Cons c cs)
  from Cons.IH[OF step_count_bound[OF Cons.prems, of c]] show ?case
    by (simp add: split_beta)
qed

lemma PushOne_eq:
  "PushOne sz v s = (0 < fst (PushMany_range sz [v] s), snd (PushMany_range sz [v] s))"
  by (simp add: PushOne_def PushMany_range_def split_beta)

lemma PushMany_range_spec:
  assumes wf: "well_formed sz s" and inv: "state_invariant sz s"
  shows "fst (PushMany_range sz xs s) = min (length xs) (sz - m_currentSize s)"
    and "well_formed sz (snd (PushMany_range sz xs s))"
    and "state_invariant sz (snd (PushMany_range sz xs s))"
    and "contents sz (snd (PushMany_range sz xs s)) = contents sz s @ take (sz - m_currentSize s) xs"
    and "m_currentSize (snd (PushMany_range sz xs s))
          = m_currentSize s + min (length xs) (sz - m_currentSize s)"
  unfolding PushMany_range_def
  using PushMany_spec[OF it_range_pointer wf inv] by simp_all

lemma step_fifo:
  assumes wf: "well_formed sz s" and inv: "state_invariant sz s" and c: "is_push_or_pop c"
  shows "well_formed sz (snd (step sz c s))"
    and "state_invariant sz (snd (step sz c s))"
    and "contents sz s @ accepted c (fst (step sz c s))
           = removed s c (fst (step sz c s)) @ contents sz (snd (step sz c s))"
proof -
  have "well_formed sz (snd (step sz c s)) \<and> state_invariant sz (snd (step sz c s)) \<and>
     contents sz s @ accepted c (fst (step sz c s))
           = removed s c (fst (step sz c s)) @ contents sz (snd (step sz c s))"
  proof (cases c)
    case (OpPushMany xs)
    note P = PushMany_range_spec[OF wf inv, of xs]
    have "take (min (length xs) (sz - m_currentSize s)) xs = take (sz - m_currentSize s) xs"
      by (simp add: min_def)
    then show ?thesis using P by (simp add: OpPushMany split_beta)
  next
    case (OpPushOne v)
    note P = PushMany_range_spec[OF wf inv, of "[v]"]
    show ?thesis using P by (auto simp add: OpPushOne PushOne_eq min_def)
  next
    case OpPop
    show ?thesis
    proof (cases "m_currentSize s = 0")
      case True
      then show ?thesis using wf inv by (simp add: OpPop Pop_empty)
    next
      case False
      then have ne: "0 < m_currentSize s" by simp
      note P = Pop_spec[OF wf inv ne]
      have "contents sz s \<noteq> []" using length_contents[of sz s] ne by auto
      then show ?thesis using P Peek_spec[OF wf ne] by (simp add: OpPop split_beta)
    qed
  next
    case (OpPeekAndPop out)
    show ?thesis
    proof (cases "m_currentSize s = 0")
      case True
      then show ?thesis using wf inv by (simp add: OpPeekAndPop PeekAndPop_empty)
    next
      case False
      then have ne: "0 < m_currentSize s" by simp
      note P = Pop_spec[OF wf inv ne]
      have "contents sz s \<noteq> []" using length_contents[of sz s] ne by auto
      then show ?thesis using P by (simp add: OpPeekAndPop PeekAndPop_spec[OF wf inv ne])
    qed
  qed (use c in simp_all)
  then show "well_formed sz (snd (step sz c s))"
    and "state_invariant sz (snd (step sz c s))"
    and "contents sz s @ accepted c (fst (step sz c s))
           = removed s c (fst (step sz c s)) @ contents sz (snd (step sz c s))"
    by simp_all
qed

lemma trace_fifo:
  assumes "list_all is_push_or_pop cs" "well_formed sz s" "state_invariant sz s"
  shows "well_formed sz (snd (trace sz cs s)) \<and> state_invariant sz (snd (trace sz cs s)) \<and>
     contents sz s @ fst (fst (trace sz cs s))
       = snd (fst (trace sz cs s)) @ contents sz (snd (trace sz cs s))"
  using assms
proof (induction cs arbitrary: s)
  case Nil
  then show ?case by simp
next
  case (Cons c cs)
  then have c: "is_push_or_pop c" and cs: "list_all is_push_or_pop cs" by simp_all
  note S = step_fifo[OF Cons.prems(2,3) c]
  note IH = Cons.IH[OF cs S(1) S(2)]
  have "contents sz s @ accepted c (fst (step sz c s)) @ fst (fst (trace sz cs (snd (step sz c s))))
      = removed s c (fst (step sz c s)) @ snd (fst (trace sz cs (snd (step sz c s))))
          @ contents sz (snd (trace sz cs (snd (step sz c s))))"
    using S(3) IH by (metis append.assoc)
  then show ?case using IH by (simp add: split_beta)
qed


lemma PushMany_loop_count:
  "it_range It cur fin xs \<Longrightarrow>
     fst (PushMany_loop sz It cur fin c p s) = p + min (length xs) (sz - c)"
proof (induction xs arbitrary: cur c p s)
  case Nil
  then show ?case by (simp add: PushMany_loop_stop)
next
  case (Cons x xs)
  show ?case
  proof (cases "c < sz")
    case False
    then show ?thesis by (simp add: PushMany_loop_stop)
  next
    case True
    from Cons.prems have ne: "\<not> it_eq It cur fin"
      and rest: "it_range It (it_incr It cur) fin xs" by simp_all
    show ?thesis
      unfolding PushMany_loop_step[OF ne True] Cons.IH[OF rest] using True by simp
  qed
qed

lemma PushMany_count:
  "m_currentSize (snd (PushMany sz It cur fin s)) = m_currentSize s + fst (PushMany sz It cur fin s)"
  using PushMany_loop_frame[of sz It cur fin "m_currentSize s" 0 s]
  by (simp add: PushMany_def split_beta Let_def)

lemma PushMany_range_count:
  "fst (PushMany_range sz xs s) = min (length xs) (sz - m_currentSize s)"
  using PushMany_loop_count[OF it_range_pointer, of sz xs "m_currentSize s" 0 s]
  by (simp add: PushMany_range_def PushMany_def split_beta Let_def)

lemma run_pushes:
  assumes "list_all is_push cs" "well_formed sz s" "state_invariant sz s"
    "m_currentSize s + length (concat (map offered cs)) \<le> sz"
  shows "well_formed sz (snd (run sz cs s)) \<and> state_invariant sz (snd (run sz cs s)) \<and>
     contents sz (snd (run sz cs s)) = contents sz s @ concat (map offered cs)"
  using assms
proof (induction cs arbitrary: s)
  case Nil
  then show ?case by simp
next
  case (Cons c cs)
  then have c: "is_push c" and cs: "list_all is_push cs" by simp_all
  have le: "length (offered c) \<le> sz - m_currentSize s" using Cons.prems(4) by simp
  note P = PushMany_range_spec[OF Cons.prems(2,3), of "offered c"]
  have st: "snd (step sz c s) = snd (PushMany_range sz (offered c) s)"
    using c by (cases c) (simp_all add: split_beta PushOne_eq)
  have cnt: "m_currentSize (snd (step sz c s)) = m_currentSize s + length (offered c)"
    using P(5) le by (simp add: st min_def)
  have con: "contents sz (snd (step sz c s)) = contents sz s @ offered c"
    using P(4) le by (simp add: st)
  have "m_currentSize (snd (step sz c s)) + length (concat (map offered cs)) \<le> sz"
    using Cons.prems(4) cnt by simp
  from Cons.IH[OF cs _ _ this] P(2,3) con show ?case
    by (simp add: split_beta st)
qed

subsection \<open>Reachable states, and the calls that keep the invariant\<close>

text \<open>
  \<^verbatim>\<open>PushMany\<close> keeps the invariant whatever the iterator yields, so every call keeps it
  except \<^verbatim>\<open>PopMany\<close> and \<^verbatim>\<open>MoveTo\<close> on its source (\<open>step_invariant\<close>). Those two still
  keep both cursors inside the array and the count at most \<open>sz\<close>
  (\<open>step_well_formed\<close>, \<open>step_count_bound\<close>).
\<close>

lemma PushMany_loop_cursor:
  "c \<le> sz \<Longrightarrow> m_writePtr s = (r + c) mod (sz + 1) \<Longrightarrow>
   m_writePtr (snd (PushMany_loop sz It cur fin c p s))
     = (r + c + (fst (PushMany_loop sz It cur fin c p s) - p)) mod (sz + 1)"
proof (induction sz It cur fin c p s rule: PushMany_loop.induct)
  case (1 sz It cur fin c p s)
  show ?case
  proof (cases "\<not> it_eq It cur fin \<and> c < sz")
    case False
    then show ?thesis using "1.prems" by (simp add: PushMany_loop_stop)
  next
    case True
    let ?s = "s\<lparr>m_buffer := (m_buffer s)[m_writePtr s := it_deref It cur],
        m_writePtr := (if m_writePtr s + 1 > sz then 0 else m_writePtr s + 1)\<rparr>"
    have w: "m_writePtr s \<le> sz" using "1.prems"(2) by simp
    have w': "m_writePtr ?s = (r + (c + 1)) mod (sz + 1)"
      using wrap_succ[OF w] "1.prems"(2) by (simp add: mod_Suc)
    have c1: "c + 1 \<le> sz" using True by simp
    define L where "L = PushMany_loop sz It (it_incr It cur) fin (c + 1) (p + 1) ?s"
    have st: "PushMany_loop sz It cur fin c p s = L"
      using True by (simp add: PushMany_loop_step L_def)
    have IH: "m_writePtr (snd L) = (r + (c + 1) + (fst L - (p + 1))) mod (sz + 1)"
      unfolding L_def using "1.IH"[OF True refl refl refl] c1 w' by (simp split: if_splits)
    have ge: "p + 1 \<le> fst L"
      unfolding L_def
      using PushMany_loop_bound[OF c1, of "p + 1" It "it_incr It cur" fin ?s] by simp
    have "r + (c + 1) + (fst L - (p + 1)) = r + c + (fst L - p)"
      using ge by simp
    then show ?thesis unfolding st using IH by (simp only:)
  qed
qed

lemma PushMany_invariant:
  assumes wf: "well_formed sz s" and inv: "state_invariant sz s"
  shows "well_formed sz (snd (PushMany sz It cur fin s))"
    and "state_invariant sz (snd (PushMany sz It cur fin s))"
proof -
  let ?c = "m_currentSize s"
  let ?L = "PushMany_loop sz It cur fin ?c 0 s"
  have c: "?c \<le> sz" and w: "m_writePtr s = (m_readPtr s + ?c) mod (sz + 1)"
    using inv by (simp_all add: state_invariant_def)
  note F = PushMany_loop_frame[of sz It cur fin ?c 0 s]
  note B = PushMany_loop_bound[OF c, of 0 It cur fin s]
  note C = PushMany_loop_cursor[OF c w, of It cur fin 0]
  have rp: "m_readPtr (snd (PushMany sz It cur fin s)) = m_readPtr s"
    by (rule PushMany_readPtr)
  have cs: "m_currentSize (snd (PushMany sz It cur fin s)) = ?c + fst ?L"
    using F by (simp add: PushMany_def split_beta Let_def)
  have wp: "m_writePtr (snd (PushMany sz It cur fin s)) = (m_readPtr s + ?c + fst ?L) mod (sz + 1)"
    using C by (simp add: PushMany_def split_beta Let_def)
  have ln: "length (m_buffer (snd (PushMany sz It cur fin s))) = length (m_buffer s)"
    using F by (simp add: PushMany_def split_beta Let_def)
  show "well_formed sz (snd (PushMany sz It cur fin s))"
    using wf by (simp add: well_formed_def rp wp ln)
  show "state_invariant sz (snd (PushMany sz It cur fin s))"
    using B c by (simp add: state_invariant_def rp wp cs add.assoc)
qed


lemma PushMany_loop_writePtr_le:
  "m_writePtr s \<le> sz \<Longrightarrow> m_writePtr (snd (PushMany_loop sz It cur fin c p s)) \<le> sz"
proof (induction sz It cur fin c p s rule: PushMany_loop.induct)
  case (1 sz It cur fin c p s)
  show ?case
  proof (cases "\<not> it_eq It cur fin \<and> c < sz")
    case True
    then show ?thesis
      using "1.IH"[OF True refl refl refl] "1.prems"
      by (auto simp add: PushMany_loop_step split: if_splits)
  next
    case False
    then show ?thesis using "1.prems" by (simp add: PushMany_loop_stop)
  qed
qed

lemma PushMany_well_formed:
  assumes "well_formed sz s"
  shows "well_formed sz (snd (PushMany sz It cur fin s))"
  using assms PushMany_loop_frame[of sz It cur fin "m_currentSize s" 0 s]
    PushMany_loop_writePtr_le[of s sz It cur fin "m_currentSize s" 0]
  by (simp add: well_formed_def PushMany_def split_beta Let_def)

lemma PopMany_well_formed:
  assumes "well_formed sz s" "m_currentSize s \<le> sz"
  shows "well_formed sz (snd (PopMany sz n s))"
  using assms by (auto simp: well_formed_def PopMany_def GetCurrentSize_def Let_def)

lemma Pop_well_formed:
  assumes "well_formed sz s"
  shows "well_formed sz (snd (Pop sz s))"
  using assms by (auto simp: well_formed_def Pop_def Let_def)

lemma step_well_formed:
  assumes "well_formed sz s" "m_currentSize s \<le> sz"
  shows "well_formed sz (snd (step sz c s))"
proof (cases c)
  case (OpMoveTo sz2 target)
  then show ?thesis using PopMany_well_formed[OF assms]
    by (simp add: split_beta MoveTo_def Let_def)
next
  case (OpMoveFrom sz1 source)
  then show ?thesis using PushMany_well_formed[OF assms(1)]
    by (simp add: split_beta MoveTo_def Let_def)
next
  case OpClear
  then show ?thesis using assms(1) by (simp add: Clear_def well_formed_def)
qed (use assms PushMany_well_formed[OF assms(1)] PopMany_well_formed[OF assms]
       Pop_well_formed[OF assms(1)] in
     \<open>auto simp: split_beta PushMany_range_def PushOne_def shift_in_def shift_out_def
        PeekAndPop_def Let_def\<close>)

lemma run_well_formed:
  "well_formed sz s \<Longrightarrow> m_currentSize s \<le> sz \<Longrightarrow> well_formed sz (snd (run sz cs s))"
proof (induction cs arbitrary: s)
  case Nil
  then show ?case by simp
next
  case (Cons c cs)
  from Cons.IH[OF step_well_formed[OF Cons.prems, of c] step_count_bound[OF Cons.prems(2), of c]]
  show ?case by (simp add: split_beta)
qed

lemma step_invariant:
  assumes wf: "well_formed sz s" and inv: "state_invariant sz s" and c: "\<not> uses_PopMany c"
  shows "well_formed sz (snd (step sz c s)) \<and> state_invariant sz (snd (step sz c s))"
proof (cases c)
  case (OpPushMany xs)
  then show ?thesis using PushMany_invariant[OF wf inv, of "pointer_It xs" 0 "length xs"]
    by (simp add: split_beta PushMany_range_def)
next
  case (OpPushOne v)
  then show ?thesis using PushMany_invariant[OF wf inv, of "pointer_It [v]" 0 1]
    by (simp add: split_beta PushOne_def)
next
  case (OpShiftIn v)
  then show ?thesis using PushMany_invariant[OF wf inv, of "pointer_It [v]" 0 1]
    by (simp add: split_beta PushOne_def shift_in_def)
next
  case (OpShiftOut out)
  then show ?thesis using step_fifo(1,2)[OF wf inv, of "OpPeekAndPop out"]
    by (simp add: split_beta shift_out_def)
next
  case OpPop
  then show ?thesis using step_fifo(1,2)[OF wf inv, of c] by simp
next
  case (OpPeekAndPop out)
  then show ?thesis using step_fifo(1,2)[OF wf inv, of c] by simp
next
  case OpClear
  then show ?thesis using Clear_spec(1,2)[of s sz] wf by (simp add: well_formed_def)
next
  case (OpMoveFrom sz1 source)
  then show ?thesis
    using PushMany_invariant[OF wf inv, of "ConstIterator_It source"
        "CircularBuffer_begin sz1 source" "CircularBuffer_end sz1 source"]
    by (simp add: split_beta MoveTo_def Let_def)
qed (use assms in simp_all)


subsection \<open>PopMany with and without a wrap of the read cursor\<close>

text \<open>
  With \<open>k\<close> the clamped count: while \<open>m_readPtr + k \<le> sz\<close>, \<^verbatim>\<open>PopMany\<close> removes the
  \<open>k\<close> oldest elements and keeps the invariant (\<open>PopMany_no_wrap\<close>). Once
  \<open>m_readPtr + k > sz\<close> it subtracts \<open>sz\<close>, which puts the read cursor one slot past
  \<open>(m_readPtr + k) mod (sz + 1)\<close> (\<open>PopMany_wrap\<close>).
\<close>

lemma window_drop:
  "k \<le> n \<Longrightarrow> window sz buf (r + k) (n - k) = drop k (window sz buf r n)"
proof -
  assume k: "k \<le> n"
  have "drop k [0..<n] = [k..<n]" by simp
  moreover have "[k..<n] = map (\<lambda>i. i + k) [0..<n - k]"
    using k by (simp add: map_add_upt)
  ultimately show ?thesis
    unfolding window_def drop_map by (simp add: o_def ac_simps)
qed

lemma PopMany_readPtr:
  "m_readPtr (snd (PopMany sz n s))
     = (if m_readPtr s + min n (m_currentSize s) > sz
        then m_readPtr s + min n (m_currentSize s) - sz
        else m_readPtr s + min n (m_currentSize s))"
  by (simp add: PopMany_def GetCurrentSize_def Let_def min_def)

lemma PopMany_no_wrap:
  assumes wf: "well_formed sz s" and inv: "state_invariant sz s"
    and nw: "m_readPtr s + min n (m_currentSize s) \<le> sz"
  shows "well_formed sz (snd (PopMany sz n s))"
    and "state_invariant sz (snd (PopMany sz n s))"
    and "contents sz (snd (PopMany sz n s)) = drop (min n (m_currentSize s)) (contents sz s)"
proof -
  let ?k = "min n (m_currentSize s)"
  have r: "m_readPtr (snd (PopMany sz n s)) = m_readPtr s + ?k"
    using nw by (simp add: PopMany_readPtr)
  show "well_formed sz (snd (PopMany sz n s))"
    using wf nw by (simp add: well_formed_def r PopMany_result)
  have e: "m_readPtr s + ?k + (m_currentSize s - ?k) = m_readPtr s + m_currentSize s"
    by simp
  have "m_currentSize s \<le> sz" using inv by (simp add: state_invariant_def)
  then have "m_currentSize s - ?k \<le> sz" by arith
  then show "state_invariant sz (snd (PopMany sz n s))"
    using inv unfolding state_invariant_def r PopMany_result e by simp
  show "contents sz (snd (PopMany sz n s)) = drop ?k (contents sz s)"
    using window_drop[of ?k "m_currentSize s" sz "m_buffer s" "m_readPtr s"]
    by (simp add: contents_def r PopMany_result)
qed

lemma PopMany_wrap:
  assumes "well_formed sz s" "m_currentSize s \<le> sz"
    and "m_readPtr s + min n (m_currentSize s) > sz"
  shows "m_readPtr (snd (PopMany sz n s))
     = (m_readPtr s + min n (m_currentSize s) + 1) mod (sz + 1)"
proof -
  let ?k = "min n (m_currentSize s)"
  have r: "m_readPtr s \<le> sz" using assms(1) by (simp add: well_formed_def)
  define a where "a = m_readPtr s + ?k - sz"
  have eq: "m_readPtr s + ?k + 1 = a + (sz + 1)" and lt: "a < sz + 1"
    using r assms(2,3) by (simp_all add: a_def)
  have "(a + (sz + 1)) mod (sz + 1) = a"
    using lt by (simp only: mod_add_self2 mod_less)
  then have "(m_readPtr s + ?k + 1) mod (sz + 1) = a" by (simp only: eq)
  then show ?thesis using assms(3) by (simp add: PopMany_readPtr a_def)
qed

subsection \<open>States that stand for the same queue\<close>

text \<open>
  Two states that satisfy the invariant and hold the same elements give the same results
  on every sequence of \<^verbatim>\<open>PushMany\<close>, \<^verbatim>\<open>PushOne\<close>, \<^verbatim>\<open>Pop\<close> and \<^verbatim>\<open>PeekAndPop\<close> calls,
  wherever their cursors are (\<open>run_same\<close>); in particular a cleared buffer and a freshly
  constructed one (\<open>Clear_like_new\<close>).
\<close>

lemma step_same:
  assumes "well_formed sz s" "state_invariant sz s" "well_formed sz t" "state_invariant sz t"
    and "contents sz s = contents sz t" and "is_push_or_pop c"
  shows "fst (step sz c s) = fst (step sz c t)"
    and "contents sz (snd (step sz c s)) = contents sz (snd (step sz c t))"
proof -
  have n: "m_currentSize s = m_currentSize t"
    using length_contents[of sz s] length_contents[of sz t] assms(5) by simp
  have "fst (step sz c s) = fst (step sz c t) \<and>
      contents sz (snd (step sz c s)) = contents sz (snd (step sz c t))"
  proof (cases c)
    case (OpPushMany xs)
    then show ?thesis
      using PushMany_range_spec(1,4)[OF assms(1,2), of xs]
        PushMany_range_spec(1,4)[OF assms(3,4), of xs] n assms(5)
      by (simp add: split_beta)
  next
    case (OpPushOne v)
    then show ?thesis
      using PushMany_range_spec(1,4)[OF assms(1,2), of "[v]"]
        PushMany_range_spec(1,4)[OF assms(3,4), of "[v]"] n assms(5)
      by (simp add: PushOne_eq)
  next
    case OpPop
    show ?thesis
    proof (cases "m_currentSize s = 0")
      case True
      then show ?thesis using n assms(5) by (simp add: OpPop Pop_empty)
    next
      case False
      then have "0 < m_currentSize s" "0 < m_currentSize t" using n by simp_all
      then show ?thesis
        using Pop_spec(1,4)[OF assms(1,2)] Pop_spec(1,4)[OF assms(3,4)] assms(5)
        by (simp add: OpPop split_beta)
    qed
  next
    case (OpPeekAndPop out)
    show ?thesis
    proof (cases "m_currentSize s = 0")
      case True
      then show ?thesis using n assms(5) by (simp add: OpPeekAndPop PeekAndPop_empty)
    next
      case False
      then have ne: "0 < m_currentSize s" "0 < m_currentSize t" using n by simp_all
      show ?thesis
        using Pop_spec(4)[OF assms(1,2) ne(1)] Pop_spec(4)[OF assms(3,4) ne(2)] assms(5)
        by (simp add: OpPeekAndPop PeekAndPop_spec[OF assms(1,2) ne(1)]
            PeekAndPop_spec[OF assms(3,4) ne(2)])
    qed
  qed (use assms(6) in simp_all)
  then show "fst (step sz c s) = fst (step sz c t)"
    and "contents sz (snd (step sz c s)) = contents sz (snd (step sz c t))"
    by simp_all
qed

lemma run_same:
  assumes "list_all is_push_or_pop cs"
    and "well_formed sz s" "state_invariant sz s" "well_formed sz t" "state_invariant sz t"
    and "contents sz s = contents sz t"
  shows "fst (run sz cs s) = fst (run sz cs t)"
  using assms
proof (induction cs arbitrary: s t)
  case Nil
  then show ?case by simp
next
  case (Cons c cs)
  then have c: "is_push_or_pop c" and cs: "list_all is_push_or_pop cs" by simp_all
  note S = step_fifo(1,2)[OF Cons.prems(2,3) c]
  note T = step_fifo(1,2)[OF Cons.prems(4,5) c]
  note E = step_same[OF Cons.prems(2,3,4,5,6) c]
  from Cons.IH[OF cs S T E(2)] E(1) show ?case by (simp add: split_beta)
qed

lemma Clear_like_new:
  assumes "well_formed sz s" "list_all is_push_or_pop cs"
  shows "IsEmpty (Clear s)" and "m_readPtr (Clear s) = m_writePtr s"
    and "fst (run sz cs (Clear s)) = fst (run sz cs (CircularBuffer_new sz d))"
proof -
  have w: "m_writePtr s \<le> sz" "length (m_buffer s) = sz + 1"
    using assms(1) by (simp_all add: well_formed_def)
  note C = Clear_spec[OF w]
  show "IsEmpty (Clear s)" using C(4) by (simp add: IsEmpty_def)
  show "m_readPtr (Clear s) = m_writePtr s" by (rule C(5))
  show "fst (run sz cs (Clear s)) = fst (run sz cs (CircularBuffer_new sz d))"
    by (rule run_same[OF assms(2) C(1,2) new_spec(1,2)]) (simp add: C(3) new_spec(3))
qed

section \<open>The claims\<close>

text \<open>
  C1 (FIFO order). Take a freshly constructed buffer of capacity \<open>sz\<close> and any sequence of
  \<^verbatim>\<open>PushMany\<close> and \<^verbatim>\<open>PushOne\<close> calls that offers at most \<open>sz\<close> values in total.
  Popping the buffer in full with \<^verbatim>\<open>PeekAndPop\<close> then hands out exactly the offered
  values, in the order in which they were offered.
\<close>

theorem C1_fifo_order:
  assumes "list_all is_push cs" "length (concat (map offered cs)) \<le> GetCapacity sz"
  shows "drain sz out (snd (run sz cs (CircularBuffer_new sz d))) = concat (map offered cs)"
proof -
  have "m_currentSize (CircularBuffer_new sz d) + length (concat (map offered cs)) \<le> sz"
    using assms(2) by (simp add: new_spec GetCapacity_def)
  from run_pushes[OF assms(1) new_spec(1,2) this] show ?thesis
    by (simp add: drain_spec new_spec)
qed

theorem C1_fifo_order_witness:
  "list_all is_push [OpPushMany [1, 2 :: nat], OpPushOne 3, OpPushMany [4]] \<and>
   length (concat (map offered [OpPushMany [1, 2 :: nat], OpPushOne 3, OpPushMany [4]]))
     \<le> GetCapacity 4 \<and>
   drain 4 0 (snd (run 4 [OpPushMany [1, 2 :: nat], OpPushOne 3, OpPushMany [4]]
     (CircularBuffer_new 4 0))) = [1, 2, 3, 4]"
proof -
  have a: "list_all is_push [OpPushMany [1, 2 :: nat], OpPushOne 3, OpPushMany [4]]" by simp
  have b: "length (concat (map offered [OpPushMany [1, 2 :: nat], OpPushOne 3, OpPushMany [4]]))
     \<le> GetCapacity 4" by (simp add: GetCapacity_def)
  show ?thesis using a b C1_fifo_order[OF a b, of 0 0] by simp
qed

text \<open>
  C8 (empty-pop safety). On an empty buffer \<^verbatim>\<open>Pop\<close> returns false and leaves every field
  (count, both cursors, the array) as it was; \<^verbatim>\<open>PeekAndPop\<close> returns false, leaves the
  buffer as it was and leaves the caller's variable untouched.
\<close>

theorem C8_empty_pop_safety:
  assumes "IsEmpty s"
  shows "Pop sz s = (False, s) \<and> PeekAndPop sz out s = (False, out, s)"
  using assms by (simp add: Pop_def PeekAndPop_def)

theorem C8_empty_pop_safety_witness:
  "IsEmpty (snd (run 2 [OpPushOne (7 :: nat), OpPop] (CircularBuffer_new 2 0))) \<and>
   Pop 2 (snd (run 2 [OpPushOne (7 :: nat), OpPop] (CircularBuffer_new 2 0)))
     = (False, \<lparr>m_buffer = [7, 0, 0], m_readPtr = 1, m_writePtr = 1, m_currentSize = 0\<rparr>) \<and>
   PeekAndPop 2 9 (snd (run 2 [OpPushOne (7 :: nat), OpPop] (CircularBuffer_new 2 0)))
     = (False, 9, \<lparr>m_buffer = [7, 0, 0], m_readPtr = 1, m_writePtr = 1, m_currentSize = 0\<rparr>)"
proof -
  have s: "snd (run 2 [OpPushOne (7 :: nat), OpPop] (CircularBuffer_new 2 0))
      = \<lparr>m_buffer = [7, 0, 0], m_readPtr = 1, m_writePtr = 1, m_currentSize = 0\<rparr>"
    by code_simp
  have e: "IsEmpty (snd (run 2 [OpPushOne (7 :: nat), OpPop] (CircularBuffer_new 2 0)))"
    by code_simp
  show ?thesis using e C8_empty_pop_safety[OF e, of 2 9] unfolding s by simp
qed

text \<open>
  C9. In every state, \<^verbatim>\<open>PushOne(v)\<close> leaves the buffer in the state \<^verbatim>\<open>PushMany\<close> leaves it
  in on the one-element range holding \<open>v\<close>; it returns true exactly when that
  \<^verbatim>\<open>PushMany\<close> returns 1, which is exactly when the count was below the capacity.
\<close>

theorem C9_PushOne_is_PushMany:
  "snd (PushOne sz v s) = snd (PushMany_range sz [v] s) \<and>
   (fst (PushOne sz v s) \<longleftrightarrow> fst (PushMany_range sz [v] s) = 1) \<and>
   (fst (PushOne sz v s) \<longleftrightarrow> GetCurrentSize s < GetCapacity sz)"
  by (auto simp add: PushOne_eq PushMany_range_count GetCurrentSize_def GetCapacity_def min_def)

text \<open>
  C10 (frame). In every state, \<^verbatim>\<open>PushMany\<close> (over any iterator type) and \<^verbatim>\<open>PushOne\<close>
  leave the read cursor as it was, \<^verbatim>\<open>Pop\<close> and \<^verbatim>\<open>PopMany\<close> leave the write cursor as it
  was, and a call of \<^verbatim>\<open>Peek\<close>, \<^verbatim>\<open>GetCapacity\<close>, \<^verbatim>\<open>GetCapacityBytes\<close>,
  \<^verbatim>\<open>GetCurrentSize\<close>, \<^verbatim>\<open>IsEmpty\<close>, \<^verbatim>\<open>begin\<close> or \<^verbatim>\<open>end\<close> leaves the whole buffer as
  it was.
\<close>

theorem C10_frame:
  "m_readPtr (snd (PushMany sz It cur fin s)) = m_readPtr s \<and>
   m_readPtr (snd (PushOne sz v s)) = m_readPtr s \<and>
   m_writePtr (snd (Pop sz s)) = m_writePtr s \<and>
   m_writePtr (snd (PopMany sz n s)) = m_writePtr s \<and>
   snd (step sz OpPeek s) = s \<and>
   snd (step sz OpGetCapacity s) = s \<and>
   snd (step sz (OpGetCapacityBytes sizeof_T) s) = s \<and>
   snd (step sz OpGetCurrentSize s) = s \<and>
   snd (step sz OpIsEmpty s) = s \<and>
   snd (step sz OpBegin s) = s \<and>
   snd (step sz OpEnd s) = s"
proof -
  have "m_readPtr (snd (PushOne sz v s)) = m_readPtr s"
    by (simp add: PushOne_def split_beta PushMany_readPtr)
  moreover have "m_writePtr (snd (Pop sz s)) = m_writePtr s"
    by (simp add: Pop_def Let_def)
  ultimately show ?thesis
    by (simp add: PushMany_readPtr PopMany_result)
qed


text \<open>
  Without \<^verbatim>\<open>PopMany\<close> the buffer is a FIFO queue. Run any sequence of \<^verbatim>\<open>PushMany\<close>,
  \<^verbatim>\<open>PushOne\<close>, \<^verbatim>\<open>Pop\<close> and \<^verbatim>\<open>PeekAndPop\<close> calls on a freshly constructed buffer,
  however long and however often the cursors wrap. The values removed so far, followed by
  the values still in the buffer, are exactly the values accepted so far, in the order of
  acceptance; popping the rest with \<^verbatim>\<open>PeekAndPop\<close> hands out exactly the values still in
  the buffer.
\<close>

lemma fifo_without_PopMany:
  assumes "list_all is_push_or_pop cs"
    and "trace sz cs (CircularBuffer_new sz d) = ((acc, rem), s)"
  shows "rem @ contents sz s = acc \<and> drain sz out s = contents sz s \<and>
     state_invariant sz s \<and> GetCurrentSize s = length acc - length rem"
proof -
  from trace_fifo[where cs = cs and sz = sz and s = "CircularBuffer_new sz d",
      OF assms(1) new_spec(1,2)] assms(2)
  have wf: "well_formed sz s" and inv: "state_invariant sz s"
    and eq: "acc = rem @ contents sz s"
    by (simp_all add: new_spec)
  have "length acc - length rem = m_currentSize s"
    using eq by (simp add: length_contents)
  then show ?thesis using eq inv drain_spec[OF wf inv] by (simp add: GetCurrentSize_def)
qed

lemma fifo_without_PopMany_example:
  "list_all is_push_or_pop
     [OpPushMany [1, 2 :: nat], OpPeekAndPop 0, OpPop, OpPushMany [3, 4, 5], OpPeekAndPop 0,
      OpPeekAndPop 0, OpPushOne 6, OpPushOne 7, OpPushOne 8, OpPop, OpPop, OpPushMany [9, 10],
      OpPeekAndPop 0] \<and>
   trace 2
     [OpPushMany [1, 2 :: nat], OpPeekAndPop 0, OpPop, OpPushMany [3, 4, 5], OpPeekAndPop 0,
      OpPeekAndPop 0, OpPushOne 6, OpPushOne 7, OpPushOne 8, OpPop, OpPop, OpPushMany [9, 10],
      OpPeekAndPop 0] (CircularBuffer_new 2 0)
     = (([1, 2, 3, 4, 6, 7, 9, 10], [1, 2, 3, 4, 6, 7, 9]),
        \<lparr>m_buffer = [9, 10, 7], m_readPtr = 1, m_writePtr = 2, m_currentSize = 1\<rparr>) \<and>
   [1, 2, 3, 4, 6, 7, 9] @
     contents 2 \<lparr>m_buffer = [9, 10, 7 :: nat], m_readPtr = 1, m_writePtr = 2, m_currentSize = 1\<rparr>
     = [1, 2, 3, 4, 6, 7, 9, 10] \<and>
   drain 2 0 \<lparr>m_buffer = [9, 10, 7 :: nat], m_readPtr = 1, m_writePtr = 2, m_currentSize = 1\<rparr>
     = [10]"
proof -
  let ?cs = "[OpPushMany [1, 2 :: nat], OpPeekAndPop 0, OpPop, OpPushMany [3, 4, 5], OpPeekAndPop 0,
      OpPeekAndPop 0, OpPushOne 6, OpPushOne 7, OpPushOne 8, OpPop, OpPop, OpPushMany [9, 10],
      OpPeekAndPop 0]"
  let ?s = "\<lparr>m_buffer = [9, 10, 7 :: nat], m_readPtr = 1, m_writePtr = 2, m_currentSize = 1\<rparr>"
  have a: "list_all is_push_or_pop ?cs" by simp
  have b: "trace 2 ?cs (CircularBuffer_new 2 0)
     = (([1, 2, 3, 4, 6, 7, 9, 10], [1, 2, 3, 4, 6, 7, 9]), ?s)"
    by code_simp
  have c: "contents 2 ?s = [10]" by code_simp
  show ?thesis using a b c fifo_without_PopMany[OF a b, of 0] by simp
qed

text \<open>
  C7 (wraparound) on a sequence of pushes and pops that contains \<^verbatim>\<open>PopMany\<close>. On a buffer
  of capacity 1 the calls \<^verbatim>\<open>PushOne(1)\<close>, \<^verbatim>\<open>Pop()\<close>, \<^verbatim>\<open>PushOne(2)\<close>, \<^verbatim>\<open>PopMany(1)\<close>,
  \<^verbatim>\<open>PushOne(3)\<close> all succeed; three values are pushed, more than the capacity, and 1 and 2
  are popped. The buffer should now hold 3. \<^verbatim>\<open>PopMany(1)\<close> has left the read cursor at
  slot 1, one past the wrap, so \<^verbatim>\<open>PeekAndPop\<close> hands out the stale 2 of slot 1, the buffer
  is then empty, and the accepted 3 in slot 0 is never handed out.
\<close>

theorem C7_fifo_lost_after_PopMany:
  "run 1 [OpPushOne (1 :: nat), OpPop, OpPushOne 2, OpPopMany 1, OpPushOne 3,
          OpPeekAndPop 0, OpPeekAndPop 0] (CircularBuffer_new 1 0)
     = ([RetBool True, RetBool True, RetBool True, RetNat 1, RetBool True,
         RetOut True 2, RetOut False 0],
        \<lparr>m_buffer = [3, 2], m_readPtr = 0, m_writePtr = 1, m_currentSize = 0\<rparr>)"
  by code_simp

text \<open>
  C4 (capacity ceiling). Offering \<open>capacity + k\<close> values with \<open>k > 0\<close> to an empty buffer
  by \<^verbatim>\<open>PushMany\<close> accepts exactly \<open>capacity\<close> of them and rejects \<open>k\<close>; where the
  empty buffer satisfies the state invariant, it then holds the first \<open>capacity\<close> values
  offered: the excess is dropped. After any sequence of
  calls of the public interface on a freshly constructed buffer, \<^verbatim>\<open>GetCurrentSize()\<close> is at
  most \<^verbatim>\<open>GetCapacity()\<close>.
\<close>

theorem C4_capacity_ceiling:
  "(IsEmpty s \<and> 0 < k \<and> length xs = GetCapacity sz + k \<longrightarrow>
      fst (PushMany_range sz xs s) = GetCapacity sz \<and>
      length xs - fst (PushMany_range sz xs s) = k \<and>
      GetCurrentSize (snd (PushMany_range sz xs s)) = GetCapacity sz \<and>
      (well_formed sz s \<and> state_invariant sz s \<longrightarrow>
         contents sz (snd (PushMany_range sz xs s)) = take (GetCapacity sz) xs)) \<and>
   GetCurrentSize (snd (run sz cs (CircularBuffer_new sz d))) \<le> GetCapacity sz"
proof -
  have cnt: "m_currentSize (snd (PushMany_range sz xs s))
      = m_currentSize s + fst (PushMany_range sz xs s)"
    unfolding PushMany_range_def by (rule PushMany_count)
  have A: "fst (PushMany_range sz xs s) = sz \<and> length xs - fst (PushMany_range sz xs s) = k \<and>
      m_currentSize (snd (PushMany_range sz xs s)) = sz"
    if "m_currentSize s = 0" "length xs = sz + k"
    using that by (simp add: cnt PushMany_range_count)
  have B: "contents sz (snd (PushMany_range sz xs s)) = take sz xs"
    if "m_currentSize s = 0" "well_formed sz s" "state_invariant sz s"
    using PushMany_range_spec(4)[OF that(2,3), of xs] that(1) by (simp add: contents_empty)
  have C: "m_currentSize (snd (run sz cs (CircularBuffer_new sz d))) \<le> sz"
    by (rule run_count_bound) (simp add: new_spec)
  show ?thesis
    using A B C by (simp add: IsEmpty_def GetCapacity_def GetCurrentSize_def)
qed

theorem C4_capacity_ceiling_witness:
  "(IsEmpty \<lparr>m_buffer = [7, 0, 0 :: nat], m_readPtr = 1, m_writePtr = 1, m_currentSize = 0\<rparr> \<and>
    0 < (2 :: nat) \<and> length [1, 2, 3, 4 :: nat] = GetCapacity 2 + 2) \<and>
   (well_formed 2 \<lparr>m_buffer = [7, 0, 0 :: nat], m_readPtr = 1, m_writePtr = 1, m_currentSize = 0\<rparr> \<and>
    state_invariant 2
      \<lparr>m_buffer = [7, 0, 0 :: nat], m_readPtr = 1, m_writePtr = 1, m_currentSize = 0\<rparr>) \<and>
   fst (PushMany_range 2 [1, 2, 3, 4]
      \<lparr>m_buffer = [7, 0, 0 :: nat], m_readPtr = 1, m_writePtr = 1, m_currentSize = 0\<rparr>) = 2 \<and>
   contents 2 (snd (PushMany_range 2 [1, 2, 3, 4]
      \<lparr>m_buffer = [7, 0, 0 :: nat], m_readPtr = 1, m_writePtr = 1, m_currentSize = 0\<rparr>)) = [1, 2] \<and>
   GetCurrentSize (snd (run 2 [OpPushMany [1, 2, 3, 4 :: nat], OpPushOne 5] (CircularBuffer_new 2 0)))
     \<le> GetCapacity 2"
proof -
  let ?s = "\<lparr>m_buffer = [7, 0, 0 :: nat], m_readPtr = 1, m_writePtr = 1, m_currentSize = 0\<rparr>"
  have a: "IsEmpty ?s \<and> 0 < (2 :: nat) \<and> length [1, 2, 3, 4 :: nat] = GetCapacity 2 + 2"
    by (simp add: IsEmpty_def GetCapacity_def)
  have b: "well_formed 2 ?s \<and> state_invariant 2 ?s"
    by (simp add: well_formed_def state_invariant_def)
  show ?thesis
    using a b C4_capacity_ceiling[of ?s 2 "[1, 2, 3, 4]" 2
        "[OpPushMany [1, 2, 3, 4 :: nat], OpPushOne 5]" 0]
    by (simp add: GetCapacity_def)
qed


text \<open>
  \<^verbatim>\<open>MoveTo\<close> between two instances that satisfy the state invariant. Let \<open>A\<close> (capacity
  \<open>sza\<close>) satisfy it and hold \<open>m\<close> elements, and let \<open>B\<close> (capacity \<open>szb\<close>, another
  instance) satisfy it and be empty. Then \<^verbatim>\<open>A.MoveTo(B)\<close> returns \<open>min m szb\<close>, afterwards
  the two sizes add up to \<open>m\<close>, and \<open>B\<close> holds exactly the oldest \<open>min m szb\<close> elements
  of \<open>A\<close> in their order, which is also what popping \<open>B\<close> in full hands out.
\<close>

lemma MoveTo_conservation:
  assumes "well_formed sza A" "state_invariant sza A" "GetCurrentSize A = m"
    and "well_formed szb B" "state_invariant szb B" "IsEmpty B"
    and "MoveTo sza szb A B = (moved, A1, B1)"
  shows "moved = min m (GetCapacity szb) \<and>
     GetCurrentSize A1 + GetCurrentSize B1 = m \<and>
     contents szb B1 = take (min m (GetCapacity szb)) (contents sza A) \<and>
     drain szb out B1 = take (min m (GetCapacity szb)) (contents sza A)"
proof -
  note M = MoveTo_spec[OF assms(1,2,4,5)]
  have b0: "m_currentSize B = 0" using assms(6) by (simp add: IsEmpty_def)
  have m: "m_currentSize A = m" using assms(3) by (simp add: GetCurrentSize_def)
  have le: "m \<le> sza" using assms(2) m by (simp add: state_invariant_def)
  have tk: "take szb (contents sza A) = take (min m szb) (contents sza A)"
    using length_contents[of sza A] m by (simp add: min_def)
  have con: "contents szb B1 = take (min m szb) (contents sza A)"
    using M(6) assms(7) b0 tk by (simp add: contents_empty)
  have dr: "drain szb out B1 = contents szb B1"
    using drain_spec[of szb B1 out] M(4,5) assms(7) by simp
  show ?thesis
    using M(1,2,3) assms(7) b0 m le con dr by (simp add: GetCurrentSize_def GetCapacity_def)
qed

lemma MoveTo_conservation_example:
  "(well_formed 4 \<lparr>m_buffer = [6, 2, 3, 4, 5 :: nat], m_readPtr = 3, m_writePtr = 1, m_currentSize = 3\<rparr> \<and>
    state_invariant 4 \<lparr>m_buffer = [6, 2, 3, 4, 5 :: nat], m_readPtr = 3, m_writePtr = 1, m_currentSize = 3\<rparr> \<and>
    GetCurrentSize \<lparr>m_buffer = [6, 2, 3, 4, 5 :: nat], m_readPtr = 3, m_writePtr = 1, m_currentSize = 3\<rparr> = 3) \<and>
   (well_formed 2 \<lparr>m_buffer = [7, 0, 0 :: nat], m_readPtr = 1, m_writePtr = 1, m_currentSize = 0\<rparr> \<and>
    state_invariant 2 \<lparr>m_buffer = [7, 0, 0 :: nat], m_readPtr = 1, m_writePtr = 1, m_currentSize = 0\<rparr> \<and>
    IsEmpty \<lparr>m_buffer = [7, 0, 0 :: nat], m_readPtr = 1, m_writePtr = 1, m_currentSize = 0\<rparr>) \<and>
   MoveTo 4 2 \<lparr>m_buffer = [6, 2, 3, 4, 5 :: nat], m_readPtr = 3, m_writePtr = 1, m_currentSize = 3\<rparr>
      \<lparr>m_buffer = [7, 0, 0], m_readPtr = 1, m_writePtr = 1, m_currentSize = 0\<rparr>
     = (2, \<lparr>m_buffer = [6, 2, 3, 4, 5], m_readPtr = 1, m_writePtr = 1, m_currentSize = 1\<rparr>,
        \<lparr>m_buffer = [7, 4, 5], m_readPtr = 1, m_writePtr = 0, m_currentSize = 2\<rparr>) \<and>
   contents 4 \<lparr>m_buffer = [6, 2, 3, 4, 5 :: nat], m_readPtr = 3, m_writePtr = 1, m_currentSize = 3\<rparr>
     = [4, 5, 6] \<and>
   drain 2 0 \<lparr>m_buffer = [7, 4, 5 :: nat], m_readPtr = 1, m_writePtr = 0, m_currentSize = 2\<rparr> = [4, 5]"
proof -
  let ?A = "\<lparr>m_buffer = [6, 2, 3, 4, 5 :: nat], m_readPtr = 3, m_writePtr = 1, m_currentSize = 3\<rparr>"
  let ?B = "\<lparr>m_buffer = [7, 0, 0 :: nat], m_readPtr = 1, m_writePtr = 1, m_currentSize = 0\<rparr>"
  let ?A1 = "\<lparr>m_buffer = [6, 2, 3, 4, 5 :: nat], m_readPtr = 1, m_writePtr = 1, m_currentSize = 1\<rparr>"
  let ?B1 = "\<lparr>m_buffer = [7, 4, 5 :: nat], m_readPtr = 1, m_writePtr = 0, m_currentSize = 2\<rparr>"
  have a: "well_formed 4 ?A" "state_invariant 4 ?A" "GetCurrentSize ?A = 3"
    by (simp_all add: well_formed_def state_invariant_def GetCurrentSize_def)
  have b: "well_formed 2 ?B" "state_invariant 2 ?B" "IsEmpty ?B"
    by (simp_all add: well_formed_def state_invariant_def IsEmpty_def)
  have m: "MoveTo 4 2 ?A ?B = (2, ?A1, ?B1)" by code_simp
  have c: "contents 4 ?A = [4, 5, 6]" by code_simp
  note T = MoveTo_conservation[OF a b m, of 0]
  show ?thesis using a b m c T by (simp add: GetCapacity_def)
qed

text \<open>
  C5 (move conservation) on buffers that a \<^verbatim>\<open>PopMany\<close> has left with a displaced read
  cursor. A buffer \<open>A\<close> of capacity 4 is filled with 1, 2, 3, 4, popped three times, given
  5 and 6, and \<^verbatim>\<open>PopMany(2)\<close> removes 4 and 5: \<open>A\<close> reports size 1 and should hold 6,
  but both cursors are at slot 1. \<^verbatim>\<open>A.MoveTo(B)\<close> into a fresh \<open>B\<close> of capacity 2 finds
  \<^verbatim>\<open>begin() == end()\<close>, returns 0 and leaves \<open>B\<close> empty, where \<open>min 1 2 = 1\<close> element
  should move. After three more pushes 7, 8, 9 the buffer \<open>A\<close> reports size 4 and should
  hold 6, 7, 8, 9; \<^verbatim>\<open>A.MoveTo(B)\<close> into a fresh \<open>B\<close> of capacity 8 returns 3 and \<open>B\<close>
  receives 7, 8, 9, without the oldest element 6.
\<close>

theorem C5_MoveTo_after_PopMany_wrap:
  "run 4 [OpPushMany [1, 2, 3, 4 :: nat], OpPop, OpPop, OpPop, OpPushMany [5, 6], OpPopMany 2]
      (CircularBuffer_new 4 0)
     = ([RetNat 4, RetBool True, RetBool True, RetBool True, RetNat 2, RetNat 2],
        \<lparr>m_buffer = [6, 2, 3, 4, 5], m_readPtr = 1, m_writePtr = 1, m_currentSize = 1\<rparr>) \<and>
   MoveTo 4 2 \<lparr>m_buffer = [6, 2, 3, 4, 5 :: nat], m_readPtr = 1, m_writePtr = 1, m_currentSize = 1\<rparr>
      (CircularBuffer_new 2 0)
     = (0, \<lparr>m_buffer = [6, 2, 3, 4, 5], m_readPtr = 1, m_writePtr = 1, m_currentSize = 1\<rparr>,
        CircularBuffer_new 2 0) \<and>
   min (GetCurrentSize
          \<lparr>m_buffer = [6, 2, 3, 4, 5 :: nat], m_readPtr = 1, m_writePtr = 1, m_currentSize = 1\<rparr>)
       (GetCapacity 2) = 1 \<and>
   run 4 [OpPushMany [1, 2, 3, 4 :: nat], OpPop, OpPop, OpPop, OpPushMany [5, 6], OpPopMany 2,
          OpPushMany [7, 8, 9]] (CircularBuffer_new 4 0)
     = ([RetNat 4, RetBool True, RetBool True, RetBool True, RetNat 2, RetNat 2, RetNat 3],
        \<lparr>m_buffer = [6, 7, 8, 9, 5], m_readPtr = 1, m_writePtr = 4, m_currentSize = 4\<rparr>) \<and>
   MoveTo 4 8 \<lparr>m_buffer = [6, 7, 8, 9, 5 :: nat], m_readPtr = 1, m_writePtr = 4, m_currentSize = 4\<rparr>
      (CircularBuffer_new 8 0)
     = (3, \<lparr>m_buffer = [6, 7, 8, 9, 5], m_readPtr = 4, m_writePtr = 4, m_currentSize = 1\<rparr>,
        \<lparr>m_buffer = [7, 8, 9, 0, 0, 0, 0, 0, 0], m_readPtr = 0, m_writePtr = 3,
           m_currentSize = 3\<rparr>) \<and>
   min (GetCurrentSize
          \<lparr>m_buffer = [6, 7, 8, 9, 5 :: nat], m_readPtr = 1, m_writePtr = 4, m_currentSize = 4\<rparr>)
       (GetCapacity 8) = 4 \<and>
   drain 8 0 \<lparr>m_buffer = [7, 8, 9, 0, 0, 0, 0, 0, 0 :: nat], m_readPtr = 0, m_writePtr = 3,
      m_currentSize = 3\<rparr> = [7, 8, 9]"
  by code_simp

text \<open>
  C2 (\<^verbatim>\<open>PopMany\<close>) at a state where the read cursor has to wrap. A buffer of capacity 4 is
  filled with 1, 2, 3, 4, popped three times and given 5 and 6: it holds 4, 5, 6 with
  the read cursor at slot 3. \<^verbatim>\<open>PopMany(2)\<close> returns 2 and lowers the count to 1, but it
  corrects \<open>3 + 2\<close> by subtracting \<open>size\<close>, not \<open>size + 1\<close>: the read cursor becomes 1,
  where \<open>(3 + 2) mod 5\<close> is 0. The element left is 6, in slot 0; \<^verbatim>\<open>Peek\<close> and
  \<^verbatim>\<open>PeekAndPop\<close> give the stale 2 of slot 1.
\<close>

theorem C2_PopMany_wrap_defect:
  "snd (run 4 [OpPushMany [1, 2, 3, 4 :: nat], OpPop, OpPop, OpPop, OpPushMany [5, 6]]
      (CircularBuffer_new 4 0))
     = \<lparr>m_buffer = [6, 2, 3, 4, 5], m_readPtr = 3, m_writePtr = 1, m_currentSize = 3\<rparr> \<and>
   contents 4 \<lparr>m_buffer = [6, 2, 3, 4, 5 :: nat], m_readPtr = 3, m_writePtr = 1, m_currentSize = 3\<rparr>
     = [4, 5, 6] \<and>
   PopMany 4 2 \<lparr>m_buffer = [6, 2, 3, 4, 5 :: nat], m_readPtr = 3, m_writePtr = 1, m_currentSize = 3\<rparr>
     = (2, \<lparr>m_buffer = [6, 2, 3, 4, 5], m_readPtr = 1, m_writePtr = 1, m_currentSize = 1\<rparr>) \<and>
   (3 + 2) mod (4 + 1) = (0 :: nat) \<and>
   Peek \<lparr>m_buffer = [6, 2, 3, 4, 5 :: nat], m_readPtr = 1, m_writePtr = 1, m_currentSize = 1\<rparr> = 2 \<and>
   drain 4 0 \<lparr>m_buffer = [6, 2, 3, 4, 5 :: nat], m_readPtr = 1, m_writePtr = 1, m_currentSize = 1\<rparr>
     = [2]"
  by code_simp

text \<open>
  C3 (state invariant) at the same state: the invariant holds before \<^verbatim>\<open>PopMany(2)\<close> and
  fails after it, and likewise after a \<^verbatim>\<open>MoveTo\<close> into an empty buffer of capacity 2, which
  pops the two moved elements through \<^verbatim>\<open>PopMany\<close>.
\<close>

theorem C3_invariant_broken_by_PopMany:
  "state_invariant 4
     (snd (run 4 [OpPushMany [1, 2, 3, 4 :: nat], OpPop, OpPop, OpPop, OpPushMany [5, 6]]
        (CircularBuffer_new 4 0))) \<and>
   \<not> state_invariant 4
     (snd (run 4 [OpPushMany [1, 2, 3, 4 :: nat], OpPop, OpPop, OpPop, OpPushMany [5, 6],
        OpPopMany 2] (CircularBuffer_new 4 0))) \<and>
   \<not> state_invariant 4
     (snd (run 4 [OpPushMany [1, 2, 3, 4 :: nat], OpPop, OpPop, OpPop, OpPushMany [5, 6],
        OpMoveTo 2 (CircularBuffer_new 2 0)] (CircularBuffer_new 4 0)))"
  by code_simp

text \<open>
  C6 (\<^verbatim>\<open>Clear\<close>) on a sequence that contains \<^verbatim>\<open>PopMany\<close>. A buffer of capacity 4 given
  1, 2, 3 and cleared has both cursors at slot 3. Pushing 7, 8, 9, then \<^verbatim>\<open>PopMany(2)\<close>,
  then \<^verbatim>\<open>PeekAndPop\<close> hands out the stale 2 on the cleared buffer and 9 on a freshly
  constructed one.
\<close>

theorem C6_cleared_differs_from_fresh:
  "Clear (snd (run 4 [OpPushMany [1, 2, 3 :: nat]] (CircularBuffer_new 4 0)))
     = \<lparr>m_buffer = [1, 2, 3, 0, 0], m_readPtr = 3, m_writePtr = 3, m_currentSize = 0\<rparr> \<and>
   fst (run 4 [OpPushMany [7, 8, 9 :: nat], OpPopMany 2, OpPeekAndPop 0]
      \<lparr>m_buffer = [1, 2, 3, 0, 0], m_readPtr = 3, m_writePtr = 3, m_currentSize = 0\<rparr>)
     = [RetNat 3, RetNat 2, RetOut True 2] \<and>
   fst (run 4 [OpPushMany [7, 8, 9 :: nat], OpPopMany 2, OpPeekAndPop 0] (CircularBuffer_new 4 0))
     = [RetNat 3, RetNat 2, RetOut True 9]"
  by code_simp

end
